theory Spec2Isabelle
  imports Complex_Main "HOL-Library.Word" "HOL-Library.AList"
begin

section \<open>Placeholder Forge: the page script as a functional model\<close>

text \<open>
  The repository holds two variants of one page script: the page with the RAM safeguard
  and the target file size (\<^verbatim>\<open>src/unnamed/part_000\<close>) and the plain page
  (\<^verbatim>\<open>src/app/pages/index.vue\<close>). Their \<^verbatim>\<open>generateImages\<close> differ in three
  places only: the guard on \<^verbatim>\<open>isOverRamLimit\<close>, the call of \<^verbatim>\<open>inflateBlob\<close>, and the
  colours handed to the canvas. One model covers both, selected by a \<open>variant\<close>.

  JavaScript numbers that hold counts, sizes and pixel dimensions are modelled by \<open>int\<close>;
  the results of \<^verbatim>\<open>Math.random()\<close> by real numbers of the half-open unit interval.
\<close>

subsection \<open>Data\<close>

type_synonym byte = "8 word"

text \<open>A \<^verbatim>\<open>Blob\<close>: its bytes and its media type; \<^verbatim>\<open>blob.size\<close> is the number of bytes.\<close>

record Blob =
  bytes :: "byte list"
  mime :: string

definition blob_size :: "Blob \<Rightarrow> int" where
  "blob_size b = int (length (bytes b))"

datatype fmt = Jpg | Png

datatype variant = Budgeted | Plain

text \<open>The value piexif's \<^verbatim>\<open>degToDmsRational\<close> returns: a list of rationals (pairs).\<close>

type_synonym dms = "(int \<times> int) list"

record ExifObj =
  Make :: string
  Model :: string
  Software :: string
  DateTimeOriginal :: string
  GPSLatitudeRef :: string
  GPSLatitude :: dms
  GPSLongitudeRef :: string
  GPSLongitude :: dms

text \<open>\<^verbatim>\<open>type GenImg\<close>; \<^verbatim>\<open>exif: any | null\<close> is an option.\<close>

record GenImg =
  name :: string
  blob :: Blob
  url :: string
  exif :: "ExifObj option"
  uuid :: string
  img_width :: int
  img_height :: int

text \<open>The refs of the page that the script reads and writes.\<close>

record state =
  count :: int
  format :: fmt
  randomSize :: bool
  width :: int
  height :: int
  withExif :: bool
  bgColor :: string
  targetSize :: int
  isGenerating :: bool
  cancelRequested :: bool
  stepIdx :: int
  images :: "GenImg list"


subsection \<open>The world outside the script\<close>

text \<open>
  \<^verbatim>\<open>Math.random()\<close> returns a number \<open>r\<close> with \<open>0 \<le> r < 1\<close>. The type holds exactly
  those reals, so no model of the script can be run on a draw outside this range.
  (Floating-point rounding of the products is not modelled: a draw is an exact real.)
\<close>

typedef rand01 = "{r :: real. 0 \<le> r \<and> r < 1}"
  by (rule exI [of _ 0]) simp

setup_lifting type_definition_rand01

text \<open>A concrete draw \<open>a / b\<close> (for \<open>a < b\<close>), used where the model is run.\<close>

lift_definition ratio01 :: "nat \<Rightarrow> nat \<Rightarrow> rand01" is
  "\<lambda>a b. if a < b then real a / real b else 0"
  by simp

text \<open>The random draws still to come, in the order the script asks for them.\<close>

type_synonym rng = "nat \<Rightarrow> rand01"

definition draw :: "rng \<Rightarrow> real \<times> rng" where
  "draw g = (Rep_rand01 (g 0), \<lambda>n. g (Suc n))"

text \<open>What the script hands to the 2D canvas before encoding it.\<close>

record canvas =
  c_width :: int
  c_height :: int
  background :: string
  textColor :: string
  label :: string

text \<open>
  Everything the script takes from the browser and from its libraries, per unit \<open>i\<close> of a
  run (\<open>i\<close> counts from 0): the \<^verbatim>\<open>Math.random()\<close> draws of the unit in order, the first
  group of \<^verbatim>\<open>crypto.randomUUID()\<close>, the faker strings, the canvas encoder
  (\<^verbatim>\<open>canvas.toDataURL(mime, 0.9)\<close>; a data URL is modelled by the blob that fetching it
  yields), piexif's \<^verbatim>\<open>degToDmsRational\<close> and \<^verbatim>\<open>insert(dump(exifObj), dataURL)\<close>,
  \<^verbatim>\<open>URL.createObjectURL\<close>, and whether the user clicked Cancel
  (\<^verbatim>\<open>cancelGeneration\<close>) while the unit was suspended in its \<^verbatim>\<open>await\<close>. The script is
  single-threaded: a click is handled only while \<^verbatim>\<open>generateImages\<close> is suspended, and
  its only suspension points are the awaits between encoding a unit and pushing it.
\<close>

record env =
  Math_random :: "nat \<Rightarrow> rng"
  randomUUID :: "nat \<Rightarrow> string"
  company_name :: "nat \<Rightarrow> string"
  productName :: "nat \<Rightarrow> string"
  date_recent :: "nat \<Rightarrow> string"
  degToDmsRational :: "real \<Rightarrow> dms"
  toDataURL :: "canvas \<Rightarrow> string \<Rightarrow> Blob"
  piexif_insert :: "ExifObj \<Rightarrow> Blob \<Rightarrow> Blob"
  createObjectURL :: "nat \<Rightarrow> Blob \<Rightarrow> string"
  cancelDuring :: "nat \<Rightarrow> bool"

subsection \<open>Numbers in template strings\<close>

definition digit :: "nat \<Rightarrow> char" where
  "digit d = ''0123456789'' ! d"

fun showNat :: "nat \<Rightarrow> string" where
  "showNat n = (if n < 10 then [digit n] else showNat (n div 10) @ [digit (n mod 10)])"

declare showNat.simps [simp del]

definition showInt :: "int \<Rightarrow> string" where
  "showInt k = (if k < 0 then CHR ''-'' # showNat (nat (- k)) else showNat (nat k))"

definition fmt_value :: "fmt \<Rightarrow> string" where
  "fmt_value f = (case f of Jpg \<Rightarrow> ''jpg'' | Png \<Rightarrow> ''png'')"

subsection \<open>RAM safeguard (budgeted variant)\<close>

definition MAX_RAM_BYTES :: int where
  "MAX_RAM_BYTES = 500 * 1024 * 1024"

text \<open>\<^verbatim>\<open>targetSize.value || 300 * 1024\<close>: the fallback is taken when the target is 0.\<close>

definition estimatedImageSize :: "state \<Rightarrow> int" where
  "estimatedImageSize s = (if targetSize s = 0 then 300 * 1024 else targetSize s)"

definition maxCountAllowed :: "state \<Rightarrow> int" where
  "maxCountAllowed s = max 1 (MAX_RAM_BYTES div estimatedImageSize s)"

definition totalEstimatedBytes :: "state \<Rightarrow> int" where
  "totalEstimatedBytes s = count s * estimatedImageSize s"

definition isOverRamLimit :: "state \<Rightarrow> bool" where
  "isOverRamLimit s = (totalEstimatedBytes s > MAX_RAM_BYTES)"

text \<open>The watcher on \<^verbatim>\<open>[targetSize, count]\<close>.\<close>

definition watch_count :: "state \<Rightarrow> state" where
  "watch_count s =
     (if count s > maxCountAllowed s then s\<lparr>count := maxCountAllowed s\<rparr> else s)"

text \<open>The items of the target size menu (\<^verbatim>\<open>targetSizeItems\<close>), in bytes.\<close>

definition targetSizeItems :: "int list" where
  "targetSizeItems = [0, 1 * 1024 * 1024, 5 * 1024 * 1024, 10 * 1024 * 1024]"

subsection \<open>Helpers\<close>

definition landscapeSizes :: "(int \<times> int) list" where
  "landscapeSizes = [(1920, 1080), (1280, 720), (3840, 2160), (2560, 1440)]"

definition portraitSizes :: "(int \<times> int) list" where
  "portraitSizes = [(1080, 1920), (720, 1280), (2160, 3840), (1440, 2560)]"

text \<open>\<^verbatim>\<open>Math.floor(Math.random() * (max - min + 1)) + min\<close>\<close>

definition randInt :: "int \<Rightarrow> int \<Rightarrow> rng \<Rightarrow> int \<times> rng" where
  "randInt lo hi g =
     (let (r, g') = draw g in (\<lfloor>r * real_of_int (hi - lo + 1)\<rfloor> + lo, g'))"

text \<open>\<^verbatim>\<open>Math.floor(Math.random() * 101) - 50\<close>\<close>

definition randomOffset :: "rng \<Rightarrow> int \<times> rng" where
  "randomOffset g = (let (r, g') = draw g in (\<lfloor>r * 101\<rfloor> - 50, g'))"

text \<open>
  The index \<^verbatim>\<open>Math.floor(Math.random() * sizes.length)\<close> into a preset list. Both lists
  have four entries and a draw is below 1, so the index is always one of the list
  (lemma \<open>presetIndex_in_range\<close> below).
\<close>

definition presetIndex :: "(int \<times> int) list \<Rightarrow> rng \<Rightarrow> nat \<times> rng" where
  "presetIndex sizes g = (let (r, g') = draw g in (nat \<lfloor>r * real (length sizes)\<rfloor>, g'))"

definition pickSize :: "state \<Rightarrow> rng \<Rightarrow> (int \<times> int) \<times> rng" where
  "pickSize s g =
     (if randomSize s then
        (let (r, g1) = draw g;
             sizes = (if r > 0.5 then landscapeSizes else portraitSizes);
             (k, g2) = presetIndex sizes g1;
             (baseWidth, baseHeight) = sizes ! k;
             (dw, g3) = randomOffset g2;
             (dh, g4) = randomOffset g3
         in ((baseWidth + dw, baseHeight + dh), g4))
      else ((width s, height s), g))"

text \<open>\<^verbatim>\<open>images.value.splice(idx, 1)\<close>, with JavaScript's clamping of the start index.\<close>

definition deleteImage :: "int \<Rightarrow> state \<Rightarrow> state" where
  "deleteImage idx s =
     (let n = int (length (images s));
          start = (if idx < 0 then max (n + idx) 0 else min idx n)
      in s\<lparr>images := take (nat start) (images s) @ drop (nat start + 1) (images s)\<rparr>)"

definition cancelGeneration :: "state \<Rightarrow> state" where
  "cancelGeneration s = s\<lparr>cancelRequested := True\<rparr>"

subsection \<open>Size inflator\<close>

text \<open>
  \<^verbatim>\<open>if (!targetBytes || blob.size >= targetBytes) return blob;\<close> and otherwise a new
  blob of the old one followed by \<^verbatim>\<open>new Uint8Array(padSize).fill(0)\<close>, with the old type.
\<close>

definition inflateBlob :: "Blob \<Rightarrow> int \<Rightarrow> Blob" where
  "inflateBlob b targetBytes =
     (if targetBytes = 0 \<or> blob_size b \<ge> targetBytes then b
      else let padSize = targetBytes - blob_size b;
               pad = replicate (nat padSize) (0 :: byte)
           in \<lparr>bytes = bytes b @ pad, mime = mime b\<rparr>)"

subsection \<open>Generation\<close>

text \<open>The random fallback of \<^verbatim>\<open>ctx.fillStyle\<close> and the colour of the overlay text.\<close>

definition hsl :: "variant \<Rightarrow> int \<Rightarrow> string" where
  "hsl v hue =
     ''hsl('' @ showInt hue @ (case v of Budgeted \<Rightarrow> '', 40%, 85%)'' | Plain \<Rightarrow> '', 80%, 60%)'')"

definition overlayColor :: "variant \<Rightarrow> string" where
  "overlayColor v = (case v of Budgeted \<Rightarrow> ''#000'' | Plain \<Rightarrow> ''#fff'')"

text \<open>\<^verbatim>\<open>bgColor.value || `hsl(${randInt(0, 359)}, ...)`\<close>: the draw is made only when no
  colour is set (the empty string stands for both \<^verbatim>\<open>""\<close> and \<^verbatim>\<open>null\<close>).\<close>

definition fillStyle :: "variant \<Rightarrow> state \<Rightarrow> rng \<Rightarrow> string \<times> rng" where
  "fillStyle v s g =
     (if bgColor s \<noteq> [] then (bgColor s, g)
      else (let (hue, g') = randInt 0 359 g in (hsl v hue, g')))"

text \<open>\<^verbatim>\<open>randInt(0, hi) + Math.random()\<close>: the degrees handed to \<^verbatim>\<open>degToDmsRational\<close>.\<close>

definition randomDegrees :: "int \<Rightarrow> rng \<Rightarrow> real \<times> rng" where
  "randomDegrees hi g =
     (let (d, g1) = randInt 0 hi g;
          (f, g2) = draw g1
      in (real_of_int d + f, g2))"

text \<open>The object literal \<^verbatim>\<open>exifObj = { "0th": ..., Exif: ..., GPS: ... }\<close> of unit \<open>i\<close>.\<close>

definition newExifObj :: "env \<Rightarrow> nat \<Rightarrow> rng \<Rightarrow> ExifObj \<times> rng" where
  "newExifObj e i g =
     (let (lat, g1) = randomDegrees 90 g;
          (lon, g2) = randomDegrees 180 g1
      in (\<lparr>Make = company_name e i,
           Model = productName e i,
           Software = ''Placeholder Forge'',
           DateTimeOriginal = date_recent e i,
           GPSLatitudeRef = ''N'',
           GPSLatitude = degToDmsRational e lat,
           GPSLongitudeRef = ''E'',
           GPSLongitude = degToDmsRational e lon\<rparr>, g2))"

text \<open>
  The part of a unit from \<^verbatim>\<open>const [w, h] = pickSize()\<close> to the end of the
  \<^verbatim>\<open>if (withExif.value && format.value === "jpg")\<close> block: the size, the identifier, the
  metadata block and the encoded bytes (with the metadata spliced in when there is one).
\<close>

definition drawUnit ::
  "variant \<Rightarrow> env \<Rightarrow> nat \<Rightarrow> state \<Rightarrow> int \<times> int \<times> string \<times> ExifObj option \<times> Blob" where
  "drawUnit v e i s =
     (let ((w, h), g1) = pickSize s (Math_random e i);
          uid = randomUUID e i;
          (bg, g2) = fillStyle v s g1;
          cv = \<lparr>c_width = w, c_height = h, background = bg,
                textColor = overlayColor v, label = uid\<rparr>;
          mimeType = (if format s = Jpg then ''image/jpeg'' else ''image/png'');
          dataURL = toDataURL e cv mimeType
      in if withExif s \<and> format s = Jpg then
           (let (exifObj, g3) = newExifObj e i g2
            in (w, h, uid, Some exifObj, piexif_insert e exifObj dataURL))
         else (w, h, uid, None, dataURL))"

text \<open>\<^verbatim>\<open>`image_${i + 1}_${uuid}_${w}x${h}.${format.value}`\<close>\<close>

definition imageName :: "nat \<Rightarrow> string \<Rightarrow> int \<Rightarrow> int \<Rightarrow> fmt \<Rightarrow> string" where
  "imageName i uid w h f =
     ''image_'' @ showInt (int i + 1) @ ''_'' @ uid @ ''_'' @ showInt w @ ''x'' @ showInt h
       @ ''.'' @ fmt_value f"

text \<open>
  One pass of the loop body after the cancellation test, when no call throws: the
  progress step, the drawing, the suspension in \<^verbatim>\<open>await fetch(dataURL)\<close> (where a click on Cancel is handled), the
  inflation (budgeted variant only) and the push. The step index is computed with exact
  division.
\<close>

definition loopBody :: "variant \<Rightarrow> env \<Rightarrow> nat \<Rightarrow> state \<Rightarrow> state" where
  "loopBody v e i s =
     (let s1 = s\<lparr>stepIdx := min \<lfloor>(real (i + 1) / real_of_int (count s)) * 10\<rfloor> 9\<rparr>;
          (w, h, uid, exifObj, dataURL) = drawUnit v e i s1;
          s2 = (if cancelDuring e i then cancelGeneration s1 else s1);
          b = (case v of Budgeted \<Rightarrow> inflateBlob dataURL (targetSize s2) | Plain \<Rightarrow> dataURL)
      in s2\<lparr>images := images s2 @
            [\<lparr>name = imageName i uid w h (format s2),
              blob = b,
              url = createObjectURL e i b,
              exif = exifObj,
              uuid = uid,
              img_width = w,
              img_height = h\<rparr>]\<rparr>)"

lemma count_loopBody: "count (loopBody v e i s) = count s"
  by (simp add: loopBody_def cancelGeneration_def Let_def split_def)

text \<open>
  \<^verbatim>\<open>for (let i = 0; i < count.value; i++) { if (cancelRequested.value) break; ... }\<close>,
  entered at index \<open>i\<close>.
\<close>

function loop :: "variant \<Rightarrow> env \<Rightarrow> nat \<Rightarrow> state \<Rightarrow> state" where
  "loop v e i s =
     (if int i < count s then
        (if cancelRequested s then s else loop v e (Suc i) (loopBody v e i s))
      else s)"
  by pat_completeness auto
termination
  by (relation "measure (\<lambda>(v, e, i, s). nat (count s - int i))")
     (auto simp: count_loopBody)

declare loop.simps [simp del]

text \<open>
  \<^verbatim>\<open>generateImages\<close>, when no call throws. Only the budgeted variant starts with
  \<^verbatim>\<open>if (isOverRamLimit.value) return;\<close>.
\<close>

definition generateImages :: "variant \<Rightarrow> env \<Rightarrow> state \<Rightarrow> state" where
  "generateImages v e s =
     (if v = Budgeted \<and> isOverRamLimit s then s
      else
        (let s0 = s\<lparr>stepIdx := 0, isGenerating := True, cancelRequested := False, images := []\<rparr>;
             s1 = loop v e 0 s0;
             s2 = (if \<not> cancelRequested s1 then s1\<lparr>stepIdx := 10\<rparr> else s1)
         in s2\<lparr>isGenerating := False\<rparr>))"

subsection \<open>Uncaught exceptions\<close>










subsection \<open>Archive\<close>

text \<open>
  A JSZip object is modelled by its entries, an association list from names to contents:
  \<^verbatim>\<open>zip.file(name, data)\<close> adds the entry, or replaces the content of the entry that
  has this name already. \<^verbatim>\<open>downloadZip\<close> adds every held image in list order; the
  archive it offers is the serialisation of these entries.
\<close>

type_synonym zip = "(string \<times> Blob) list"

definition zip_file :: "string \<Rightarrow> Blob \<Rightarrow> zip \<Rightarrow> zip" where
  "zip_file n d z = AList.update n d z"

definition downloadZip :: "state \<Rightarrow> zip" where
  "downloadZip s = foldl (\<lambda>z i. zip_file (name i) (blob i) z) [] (images s)"

text \<open>
  The result lists a session can hold: empty at first, replaced by a run of
  \<^verbatim>\<open>generateImages\<close> (in whatever configuration), shortened by \<^verbatim>\<open>deleteImage\<close>.
\<close>

inductive held :: "GenImg list \<Rightarrow> bool" where
  held_initial: "held []"
| held_generate: "held (images s) \<Longrightarrow> held (images (generateImages v e s))"
| held_delete: "held (images s) \<Longrightarrow> held (images (deleteImage idx s))"

text \<open>
  The image that unit \<open>i\<close> of a run pushes when the configuration is that of \<open>s\<close>: the
  record built at the end of the loop body. It names the items of a run in the theorems.
\<close>

definition unitImage :: "variant \<Rightarrow> env \<Rightarrow> nat \<Rightarrow> state \<Rightarrow> GenImg" where
  "unitImage v e i s =
     (let (w, h, uid, exifObj, dataURL) = drawUnit v e i s;
          b = (case v of Budgeted \<Rightarrow> inflateBlob dataURL (targetSize s) | Plain \<Rightarrow> dataURL)
      in \<lparr>name = imageName i uid w h (format s),
          blob = b,
          url = createObjectURL e i b,
          exif = exifObj,
          uuid = uid,
          img_width = w,
          img_height = h\<rparr>)"

text \<open>Two states with the same settings (the refs that a run only reads).\<close>

definition sameConfig :: "state \<Rightarrow> state \<Rightarrow> bool" where
  "sameConfig s s' =
     (count s = count s' \<and> format s = format s' \<and> randomSize s = randomSize s'
      \<and> width s = width s' \<and> height s = height s' \<and> withExif s = withExif s'
      \<and> bgColor s = bgColor s' \<and> targetSize s = targetSize s')"


subsection \<open>Sample inputs\<close>

text \<open>
  A sample world: every draw is \<open>1/2\<close>, the encoder returns a two-byte blob of the asked
  media type, \<^verbatim>\<open>piexif.insert\<close> is a stand-in that prepends one marker byte, and nobody
  clicks Cancel. The sample state is the end-to-end example of the specification:
  three images of fixed size 640 x 480, JPEG, metadata on, no target size.
\<close>

definition demo_env :: env where
  "demo_env =
     \<lparr>Math_random = (\<lambda>i j. ratio01 1 2),
      randomUUID = (\<lambda>i. ''1f0e3dad''),
      company_name = (\<lambda>i. ''Acme''),
      productName = (\<lambda>i. ''Camera''),
      date_recent = (\<lambda>i. ''2025-01-01 10:00:00''),
      degToDmsRational = (\<lambda>d. [(\<lfloor>d * 100\<rfloor>, 100)]),
      toDataURL = (\<lambda>cv m. \<lparr>bytes = [255, 216], mime = m\<rparr>),
      piexif_insert = (\<lambda>x b. b\<lparr>bytes := 225 # bytes b\<rparr>),
      createObjectURL = (\<lambda>i b. ''blob:'' @ showNat i),
      cancelDuring = (\<lambda>i. False)\<rparr>"

definition demo_state :: state where
  "demo_state =
     \<lparr>count = 3, format = Jpg, randomSize = False, width = 640, height = 480,
      withExif = True, bgColor = ''#336699'', targetSize = 0, isGenerating = False,
      cancelRequested = False, stepIdx = 0, images = []\<rparr>"


text \<open>The draws of every unit alternate between \<open>0.995\<close> and \<open>1/2\<close>, starting with \<open>0.995\<close>.\<close>

definition polar_env :: env where
  "polar_env =
     demo_env\<lparr>Math_random := (\<lambda>i j. if even j then ratio01 199 200 else ratio01 1 2)\<rparr>"



text \<open>
  Four draws: 0.75 (landscape), 0.375 (second preset), 1/202 (offset -50) and 201/202
  (offset 50).
\<close>

definition jitter_draws :: rng where
  "jitter_draws j =
     (if j = 0 then ratio01 3 4 else if j = 1 then ratio01 3 8
      else if j = 2 then ratio01 1 202 else ratio01 201 202)"

section \<open>Lemmas\<close>

subsection \<open>Decimal numerals\<close>

lemma lt10: "(d::nat) < 10 \<Longrightarrow> d = 0 \<or> d = 1 \<or> d = 2 \<or> d = 3 \<or> d = 4 \<or> d = 5 \<or> d = 6 \<or> d = 7 \<or> d = 8 \<or> d = 9"
  by arith

lemma digit_code: "d < 10 \<Longrightarrow> of_char (digit d) = 48 + d"
proof -
  assume "d < 10"
  from lt10 [OF this] show ?thesis
    by (elim disjE) (simp_all add: digit_def)
qed

lemma digit_neq_underscore: "d < 10 \<Longrightarrow> digit d \<noteq> CHR ''_''"
proof
  assume "d < 10" and "digit d = CHR ''_''"
  then have "(of_char (CHR ''_'') :: nat) = 48 + d" using digit_code [of d] by simp
  with \<open>d < 10\<close> show False by simp
qed

lemma digit_inj: "a < 10 \<Longrightarrow> b < 10 \<Longrightarrow> digit a = digit b \<Longrightarrow> a = b"
proof -
  assume a: "a < 10" and b: "b < 10" and eq: "digit a = digit b"
  have "48 + a = (of_char (digit a) :: nat)" using digit_code [OF a] by simp
  also have "\<dots> = of_char (digit b)" by (simp only: eq)
  also have "\<dots> = 48 + b" using digit_code [OF b] by simp
  finally show ?thesis by simp
qed

lemma showNat_nonempty: "showNat n \<noteq> []"
  by (subst showNat.simps) simp

lemma showNat_no_underscore: "CHR ''_'' \<notin> set (showNat n)"
proof (induction n rule: showNat.induct)
  case (1 n)
  show ?case
  proof (cases "n < 10")
    case True
    then show ?thesis using digit_neq_underscore [of n]
      by (subst showNat.simps) auto
  next
    case False
    then show ?thesis using 1 digit_neq_underscore [of "n mod 10"]
      by (subst showNat.simps) auto
  qed
qed

lemma showNat_small: "n < 10 \<Longrightarrow> showNat n = [digit n]"
  by (subst showNat.simps) simp

lemma showNat_big: "\<not> n < 10 \<Longrightarrow> showNat n = showNat (n div 10) @ [digit (n mod 10)]"
  by (subst showNat.simps) simp

lemma split_at_first: "c \<notin> set x \<Longrightarrow> c \<notin> set y \<Longrightarrow> x @ c # r1 = y @ c # r2 \<Longrightarrow> x = y"
proof (induction x arbitrary: y)
  case Nil
  then show ?case by (cases y) auto
next
  case (Cons a x)
  then show ?case by (cases y) auto
qed

lemma showNat_inj: "showNat n = showNat m \<Longrightarrow> n = m"
proof (induction n arbitrary: m rule: showNat.induct)
  case (1 n)
  show ?case
  proof (cases "n < 10")
    case True
    note n10 = this
    show ?thesis
    proof (cases "m < 10")
      case True
      from 1(2) n10 True have "digit n = digit m"
        by (simp add: showNat_small)
      with n10 True show ?thesis by (rule digit_inj)
    next
      case False
      from 1(2) have "[digit n] = showNat (m div 10) @ [digit (m mod 10)]"
        using n10 False by (simp add: showNat_small showNat_big)
      then show ?thesis using showNat_nonempty [of "m div 10"] by (cases "showNat (m div 10)") auto
    qed
  next
    case False
    note n10 = this
    show ?thesis
    proof (cases "m < 10")
      case True
      from 1(2) have "showNat (n div 10) @ [digit (n mod 10)] = [digit m]"
        using n10 True by (simp add: showNat_small showNat_big)
      then show ?thesis using showNat_nonempty [of "n div 10"] by (cases "showNat (n div 10)") auto
    next
      case False
      from 1(2) have "showNat (n div 10) @ [digit (n mod 10)] = showNat (m div 10) @ [digit (m mod 10)]"
        using n10 False by (simp add: showNat_big)
      then have a: "showNat (n div 10) = showNat (m div 10)" and b: "digit (n mod 10) = digit (m mod 10)"
        by auto
      from 1(1) [OF n10 a] have "n div 10 = m div 10" .
      moreover have "n mod 10 = m mod 10" by (rule digit_inj [OF _ _ b]) simp_all
      ultimately show ?thesis by (metis div_mult_mod_eq)
    qed
  qed
qed


lemma showInt_pos: "0 \<le> k \<Longrightarrow> showInt k = showNat (nat k)"
  by (simp add: showInt_def)

lemma imageName_inj: "imageName i u w h f = imageName j u' w' h' f' \<Longrightarrow> i = j"
proof -
  assume eq: "imageName i u w h f = imageName j u' w' h' f'"
  have si: "showInt (int i + 1) = showNat (Suc i)" "showInt (int j + 1) = showNat (Suc j)"
    by (simp_all add: showInt_pos nat_add_distrib)
  from eq have "showNat (Suc i) @ CHR ''_'' # (u @ ''_'' @ showInt w @ ''x'' @ showInt h @ ''.'' @ fmt_value f)
     = showNat (Suc j) @ CHR ''_'' # (u' @ ''_'' @ showInt w' @ ''x'' @ showInt h' @ ''.'' @ fmt_value f')"
    unfolding imageName_def si by simp
  then have "showNat (Suc i) = showNat (Suc j)"
    by (rule split_at_first [OF showNat_no_underscore showNat_no_underscore])
  then have "Suc i = Suc j" by (rule showNat_inj)
  then show ?thesis by simp
qed

subsection \<open>The loop\<close>

lemma sameConfig_refl: "sameConfig s s"
  by (simp add: sameConfig_def)

lemma sameConfig_trans: "sameConfig a b \<Longrightarrow> sameConfig b c \<Longrightarrow> sameConfig a c"
  by (simp add: sameConfig_def)

lemma drawUnit_sameConfig: "sameConfig s s' \<Longrightarrow> drawUnit v e i s = drawUnit v e i s'"
  by (simp add: sameConfig_def drawUnit_def pickSize_def fillStyle_def)

lemma unitImage_sameConfig: "sameConfig s s' \<Longrightarrow> unitImage v e i s = unitImage v e i s'"
  by (simp add: unitImage_def drawUnit_sameConfig [of s s'] split_def Let_def)
     (simp add: sameConfig_def split: variant.splits)

lemma sameConfig_loopBody: "sameConfig (loopBody v e i s) s"
  by (simp add: loopBody_def cancelGeneration_def sameConfig_def split_def Let_def)

lemma unitImage_stepIdx: "unitImage v e i (s\<lparr>stepIdx := x\<rparr>) = unitImage v e i s"
  by (rule unitImage_sameConfig) (simp add: sameConfig_def)

lemma images_loopBody: "images (loopBody v e i s) = images s @ [unitImage v e i s]"
proof -
  have "images (loopBody v e i s)
        = images s @ [unitImage v e i (s\<lparr>stepIdx := stepIdx (loopBody v e i s)\<rparr>)]"
    by (simp add: loopBody_def unitImage_def cancelGeneration_def split_def Let_def
          split: variant.splits)
  then show ?thesis by (simp only: unitImage_stepIdx)
qed

lemma cancelRequested_loopBody:
  "cancelRequested (loopBody v e i s) = (cancelRequested s \<or> cancelDuring e i)"
  by (simp add: loopBody_def cancelGeneration_def split_def Let_def)

lemma isGenerating_loopBody: "isGenerating (loopBody v e i s) = isGenerating s"
  by (simp add: loopBody_def cancelGeneration_def split_def Let_def)

lemma loop_stop: "\<not> int i < count s \<or> cancelRequested s \<Longrightarrow> loop v e i s = s"
  by (subst loop.simps) auto

lemma loop_step:
  "int i < count s \<Longrightarrow> \<not> cancelRequested s \<Longrightarrow> loop v e i s = loop v e (Suc i) (loopBody v e i s)"
  by (subst loop.simps) simp

lemma loop_frame: "sameConfig (loop v e i s) s \<and> isGenerating (loop v e i s) = isGenerating s"
proof (induction v e i s rule: loop.induct)
  case (1 v e i s)
  show ?case
  proof (cases "int i < count s \<and> \<not> cancelRequested s")
    case True
    then have st: "loop v e i s = loop v e (Suc i) (loopBody v e i s)" by (simp add: loop_step)
    from 1 True
    have ih: "sameConfig (loop v e (Suc i) (loopBody v e i s)) (loopBody v e i s)"
      and ig: "isGenerating (loop v e (Suc i) (loopBody v e i s)) = isGenerating (loopBody v e i s)"
      by simp_all
    have "sameConfig (loop v e (Suc i) (loopBody v e i s)) s"
      by (rule sameConfig_trans [OF ih sameConfig_loopBody])
    with st ig show ?thesis by (simp add: isGenerating_loopBody)
  next
    case False
    then have "loop v e i s = s" by (intro loop_stop) auto
    then show ?thesis by (simp add: sameConfig_refl)
  qed
qed

text \<open>Whatever the clicks, the list grows by the images of consecutive units.\<close>

lemma loop_images:
  "\<exists>m. images (loop v e i s) = images s @ map (\<lambda>j. unitImage v e j s) [i..<m]"
proof (induction v e i s rule: loop.induct)
  case (1 v e i s)
  show ?case
  proof (cases "int i < count s \<and> \<not> cancelRequested s")
    case True
    then have st: "loop v e i s = loop v e (Suc i) (loopBody v e i s)" by (simp add: loop_step)
    from 1 True obtain m where
      m: "images (loop v e (Suc i) (loopBody v e i s))
          = images (loopBody v e i s) @ map (\<lambda>j. unitImage v e j (loopBody v e i s)) [Suc i..<m]"
      by auto
    have same: "\<And>j. unitImage v e j (loopBody v e i s) = unitImage v e j s"
      by (rule unitImage_sameConfig [OF sameConfig_loopBody])
    have "images (loop v e i s) = images s @ map (\<lambda>j. unitImage v e j s) [i..<max m (Suc i)]"
    proof (cases "Suc i \<le> m")
      case True
      then have "[i..<max m (Suc i)] = i # [Suc i..<m]" by (simp add: upt_conv_Cons max_def)
      then show ?thesis by (simp add: st m same images_loopBody)
    next
      case False
      then have "[i..<max m (Suc i)] = [i]" "[Suc i..<m] = []" by (simp_all add: max_def)
      then show ?thesis by (simp add: st m same images_loopBody)
    qed
    then show ?thesis by blast
  next
    case False
    then have "loop v e i s = s" by (intro loop_stop) auto
    then have "images (loop v e i s) = images s @ map (\<lambda>j. unitImage v e j s) [i..<i]" by simp
    then show ?thesis by blast
  qed
qed

text \<open>Without a click the loop runs up to the count.\<close>

lemma loop_nocancel:
  "\<not> cancelRequested s \<Longrightarrow> (\<forall>j. i \<le> j \<longrightarrow> \<not> cancelDuring e j) \<Longrightarrow>
   images (loop v e i s) = images s @ map (\<lambda>j. unitImage v e j s) [i..<nat (count s)]
   \<and> \<not> cancelRequested (loop v e i s)"
proof (induction v e i s rule: loop.induct)
  case (1 v e i s)
  show ?case
  proof (cases "int i < count s")
    case True
    with 1(2) have st: "loop v e i s = loop v e (Suc i) (loopBody v e i s)" by (simp add: loop_step)
    have nc: "\<not> cancelRequested (loopBody v e i s)"
      using 1(2,3) by (simp add: cancelRequested_loopBody)
    have later: "\<forall>j. Suc i \<le> j \<longrightarrow> \<not> cancelDuring e j" using 1(3) by auto
    note ih = 1(1) [OF True 1(2) nc later]
    have same: "\<And>j. unitImage v e j (loopBody v e i s) = unitImage v e j s"
      by (rule unitImage_sameConfig [OF sameConfig_loopBody])
    from True have "[i..<nat (count s)] = i # [Suc i..<nat (count s)]"
      by (simp add: upt_conv_Cons)
    with ih show ?thesis by (simp add: st same images_loopBody count_loopBody)
  next
    case False
    then have "loop v e i s = s" by (intro loop_stop) auto
    with False 1(2) show ?thesis by simp
  qed
qed


subsection \<open>Random draws\<close>

lemma presetIndex_in_range:
  "sizes \<noteq> [] \<Longrightarrow> fst (presetIndex sizes g) < length sizes"
proof -
  assume ne: "sizes \<noteq> []"
  define r where "r = Rep_rand01 (g 0)"
  have r: "0 \<le> r" "r < 1" using Rep_rand01 [of "g 0"] by (simp_all add: r_def)
  have pos: "0 < real (length sizes)" using ne by simp
  have "r * real (length sizes) < real (length sizes)"
    using r pos by simp
  then have "\<lfloor>r * real (length sizes)\<rfloor> < int (length sizes)"
    by (simp add: floor_less_iff)
  moreover have "0 \<le> \<lfloor>r * real (length sizes)\<rfloor>" using r by simp
  ultimately have "nat \<lfloor>r * real (length sizes)\<rfloor> < length sizes" by linarith
  then show ?thesis by (simp add: presetIndex_def draw_def r_def)
qed

lemma randomOffset_range: "- 50 \<le> fst (randomOffset g) \<and> fst (randomOffset g) \<le> 50"
proof -
  define r where "r = Rep_rand01 (g 0)"
  have r: "0 \<le> r" "r < 1" using Rep_rand01 [of "g 0"] by (simp_all add: r_def)
  have "r * 101 < 101" using r by simp
  then have "\<lfloor>r * 101\<rfloor> < 101" by (simp add: floor_less_iff)
  moreover have "0 \<le> \<lfloor>r * 101\<rfloor>" using r by simp
  ultimately show ?thesis by (simp add: randomOffset_def draw_def r_def)
qed

lemma randInt_range:
  "lo \<le> hi \<Longrightarrow> lo \<le> fst (randInt lo hi g) \<and> fst (randInt lo hi g) \<le> hi"
proof -
  assume le: "lo \<le> hi"
  define r where "r = Rep_rand01 (g 0)"
  define n where "n = hi - lo + 1"
  have r: "0 \<le> r" "r < 1" using Rep_rand01 [of "g 0"] by (simp_all add: r_def)
  have n: "0 < n" using le by (simp add: n_def)
  have "r * real_of_int n < real_of_int n" using r n by simp
  then have "\<lfloor>r * real_of_int n\<rfloor> < n" by (simp add: floor_less_iff)
  moreover have "0 \<le> \<lfloor>r * real_of_int n\<rfloor>" using r n by simp
  ultimately show ?thesis by (simp add: randInt_def draw_def r_def n_def)
qed

lemma randomDegrees_range:
  "0 \<le> hi \<Longrightarrow> 0 \<le> fst (randomDegrees hi g) \<and> fst (randomDegrees hi g) < real_of_int hi + 1"
proof -
  assume hi: "0 \<le> hi"
  define g1 where "g1 = snd (randInt 0 hi g)"
  define f where "f = Rep_rand01 (g1 0)"
  have f: "0 \<le> f" "f < 1" using Rep_rand01 [of "g1 0"] by (simp_all add: f_def)
  have eq: "fst (randomDegrees hi g) = real_of_int (fst (randInt 0 hi g)) + f"
    by (simp add: randomDegrees_def split_def Let_def draw_def f_def g1_def)
  from randInt_range [OF hi, of g] f show ?thesis unfolding eq by simp
qed

subsection \<open>Units and runs\<close>

lemma exif_drawUnit:
  "fst (snd (snd (snd (drawUnit v e i s)))) \<noteq> None \<longleftrightarrow> withExif s \<and> format s = Jpg"
  by (simp add: drawUnit_def split_def Let_def)

lemma exif_unitImage: "exif (unitImage v e i s) \<noteq> None \<longleftrightarrow> withExif s \<and> format s = Jpg"
  using exif_drawUnit [of v e i s] by (simp add: unitImage_def split_def Let_def)

lemma name_unitImage:
  "name (unitImage v e i s)
   = imageName i (uuid (unitImage v e i s)) (img_width (unitImage v e i s))
       (img_height (unitImage v e i s)) (format s)"
  by (simp add: unitImage_def split_def Let_def)

lemma generateImages_started:
  "\<not> (v = Budgeted \<and> isOverRamLimit s) \<Longrightarrow>
   images (generateImages v e s)
     = images (loop v e 0 (s\<lparr>stepIdx := 0, isGenerating := True, cancelRequested := False, images := []\<rparr>))
   \<and> cancelRequested (generateImages v e s)
     = cancelRequested (loop v e 0 (s\<lparr>stepIdx := 0, isGenerating := True, cancelRequested := False, images := []\<rparr>))
   \<and> \<not> isGenerating (generateImages v e s)
   \<and> sameConfig (generateImages v e s) s"
proof -
  assume a: "\<not> (v = Budgeted \<and> isOverRamLimit s)"
  let ?s0 = "s\<lparr>stepIdx := 0, isGenerating := True, cancelRequested := False, images := []\<rparr>"
  have "sameConfig (loop v e 0 ?s0) ?s0" using loop_frame by blast
  then have "sameConfig (loop v e 0 ?s0) s" by (simp add: sameConfig_def)
  with a show ?thesis
    by (auto simp: generateImages_def Let_def sameConfig_def)
qed

lemma unitImage_start:
  "unitImage v e j (s\<lparr>stepIdx := a, isGenerating := b, cancelRequested := c, images := d\<rparr>)
   = unitImage v e j s"
  by (rule unitImage_sameConfig) (simp add: sameConfig_def)

lemma run_images:
  "\<not> (v = Budgeted \<and> isOverRamLimit s) \<Longrightarrow>
   \<exists>m. images (generateImages v e s) = map (\<lambda>j. unitImage v e j s) [0..<m]"
proof -
  assume a: "\<not> (v = Budgeted \<and> isOverRamLimit s)"
  let ?s0 = "s\<lparr>stepIdx := 0, isGenerating := True, cancelRequested := False, images := []\<rparr>"
  obtain m where "images (loop v e 0 ?s0) = images ?s0 @ map (\<lambda>j. unitImage v e j ?s0) [0..<m]"
    using loop_images by blast
  then have "images (generateImages v e s) = map (\<lambda>j. unitImage v e j s) [0..<m]"
    using generateImages_started [OF a, of e] by (simp add: unitImage_start)
  then show ?thesis by blast
qed




text \<open>A run that starts and sees no click produces the images of all units in order.\<close>

lemma run_nocancel:
  assumes "\<forall>i. \<not> cancelDuring e i"
    and "\<not> (v = Budgeted \<and> isOverRamLimit s)"
  shows "images (generateImages v e s) = map (\<lambda>i. unitImage v e i s) [0..<nat (count s)]"
    and "\<not> cancelRequested (generateImages v e s)"
    and "stepIdx (generateImages v e s) = 10"
proof -
  let ?s0 = "s\<lparr>stepIdx := 0, isGenerating := True, cancelRequested := False, images := []\<rparr>"
  note st = generateImages_started [OF assms(2), of e]
  have nc: "\<not> cancelRequested ?s0" by simp
  have no: "\<forall>j. 0 \<le> j \<longrightarrow> \<not> cancelDuring e j" using assms(1) by simp
  from loop_nocancel [OF nc no, of v]
  show "images (generateImages v e s) = map (\<lambda>i. unitImage v e i s) [0..<nat (count s)]"
    and ncr: "\<not> cancelRequested (generateImages v e s)"
    using st by (simp_all add: unitImage_start)
  from ncr st have "\<not> cancelRequested (loop v e 0 ?s0)" by simp
  with assms(2) show "stepIdx (generateImages v e s) = 10"
    by (auto simp: generateImages_def Let_def)
qed


subsection \<open>The archive\<close>

lemma update_fresh: "k \<notin> fst ` set al \<Longrightarrow> AList.update k v al = al @ [(k, v)]"
  by (induction al) auto

lemma downloadZip_fold:
  "distinct (map name xs) \<Longrightarrow> name ` set xs \<inter> fst ` set z = {} \<Longrightarrow>
   foldl (\<lambda>z i. zip_file (name i) (blob i) z) z xs = z @ map (\<lambda>i. (name i, blob i)) xs"
proof (induction xs arbitrary: z)
  case Nil
  then show ?case by simp
next
  case (Cons x xs)
  from Cons.prems have fresh: "name x \<notin> fst ` set z" by auto
  then have step: "zip_file (name x) (blob x) z = z @ [(name x, blob x)]"
    by (simp add: zip_file_def update_fresh)
  have d: "distinct (map name xs)" using Cons.prems by simp
  have disj: "name ` set xs \<inter> fst ` set (z @ [(name x, blob x)]) = {}"
    using Cons.prems by auto
  from Cons.IH [OF d disj] show ?case by (simp add: step)
qed

lemma distinct_unit_names: "distinct (map name (map (\<lambda>j. unitImage v e j s) [0..<m]))"
proof -
  have "inj_on (\<lambda>j. name (unitImage v e j s)) (set [0..<m])"
  proof (rule inj_onI)
    fix i j assume "name (unitImage v e i s) = name (unitImage v e j s)"
    then have "imageName i (uuid (unitImage v e i s)) (img_width (unitImage v e i s))
                 (img_height (unitImage v e i s)) (format s)
               = imageName j (uuid (unitImage v e j s)) (img_width (unitImage v e j s))
                 (img_height (unitImage v e j s)) (format s)"
      using name_unitImage [of v e i s] name_unitImage [of v e j s] by simp
    then show "i = j" by (rule imageName_inj)
  qed
  then have "distinct (map (\<lambda>j. name (unitImage v e j s)) [0..<m])"
    by (simp add: distinct_map)
  then show ?thesis by (simp add: comp_def)
qed

lemma distinct_names_generate:
  "distinct (map name (images s)) \<Longrightarrow> distinct (map name (images (generateImages v e s)))"
proof (cases "v = Budgeted \<and> isOverRamLimit s")
  case True
  assume "distinct (map name (images s))"
  with True show ?thesis by (simp add: generateImages_def)
next
  case False
  from run_images [OF False, of e] obtain m where
    "images (generateImages v e s) = map (\<lambda>j. unitImage v e j s) [0..<m]" by blast
  then show ?thesis using distinct_unit_names [of v e s m] by simp
qed

lemma distinct_remove_nth:
  "distinct ys \<Longrightarrow> distinct (take n ys @ drop (Suc n) ys)"
  using set_take_disj_set_drop_if_distinct [of ys n "Suc n"] by simp

lemma distinct_names_delete:
  "distinct (map name (images s)) \<Longrightarrow> distinct (map name (images (deleteImage idx s)))"
proof -
  assume d: "distinct (map name (images s))"
  define n where "n = nat (if idx < 0 then max (int (length (images s)) + idx) 0
                           else min idx (int (length (images s))))"
  have "map name (images (deleteImage idx s))
        = take n (map name (images s)) @ drop (Suc n) (map name (images s))"
    by (simp add: deleteImage_def Let_def n_def take_map drop_map)
  with distinct_remove_nth [OF d, of n] show ?thesis by simp
qed

lemma held_distinct_names: "held xs \<Longrightarrow> distinct (map name xs)"
proof (induction rule: held.induct)
  case held_initial
  show ?case by simp
next
  case (held_generate s v e)
  then show ?case by (simp add: distinct_names_generate)
next
  case (held_delete s idx)
  then show ?case by (simp add: distinct_names_delete)
qed

subsection \<open>The sample inputs\<close>

lemma demo_not_over: "\<not> isOverRamLimit demo_state"
  by (simp add: isOverRamLimit_def totalEstimatedBytes_def estimatedImageSize_def MAX_RAM_BYTES_def demo_state_def)

lemma demo_quiet: "\<forall>i. \<not> cancelDuring demo_env i"
  by (simp add: demo_env_def)

lemma half: "Rep_rand01 (ratio01 1 2) = 1 / 2"
  by (simp add: ratio01.rep_eq)

lemma half': "Rep_rand01 (ratio01 (Suc 0) 2) = 1 / 2"
  by (simp add: ratio01.rep_eq)

lemma near_one: "Rep_rand01 (ratio01 199 200) = 199 / 200"
  by (simp add: ratio01.rep_eq)

lemma demo_unit_name: "name (unitImage Budgeted demo_env i demo_state) = ''image_'' @ showNat (Suc i) @ ''_1f0e3dad_640x480.jpg''"
  by (simp add: unitImage_def drawUnit_def pickSize_def fillStyle_def demo_env_def demo_state_def
      imageName_def showInt_def showNat.simps [of 640] showNat.simps [of 64]  showNat.simps [of 6]
      showNat.simps [of 480] showNat.simps [of 48]  showNat.simps [of 4] digit_def fmt_value_def split_def Let_def nat_add_distrib)



lemma menu_floor: "t \<in> set targetSizeItems \<Longrightarrow>
   1 \<le> MAX_RAM_BYTES div (if t = 0 then 300 * 1024 else t) \<and> 0 < (if t = 0 then 300 * 1024 else t)"
  by (auto simp: targetSizeItems_def MAX_RAM_BYTES_def)

subsection \<open>Runs with exceptions\<close>











subsection \<open>The size picker, draw by draw\<close>

lemma Rep_ratio01: "a < b \<Longrightarrow> Rep_rand01 (ratio01 a b) = real a / real b"
  by (simp add: ratio01.rep_eq)

lemma floor_odd_half: "0 < n \<Longrightarrow> \<lfloor>real (2 * m + 1) / real (2 * n) * real n\<rfloor> = int m"
proof -
  assume n: "0 < n"
  then have "real (2 * m + 1) / real (2 * n) * real n = real m + 1 / 2"
    by (simp add: field_simps)
  then show ?thesis by (simp add: floor_unique)
qed

lemma pickSize_random:
  "randomSize s \<Longrightarrow>
   pickSize s g =
     (let sizes = (if Rep_rand01 (g 0) > 0.5 then landscapeSizes else portraitSizes);
          k = nat \<lfloor>Rep_rand01 (g 1) * 4\<rfloor>;
          dw = \<lfloor>Rep_rand01 (g 2) * 101\<rfloor> - 50;
          dh = \<lfloor>Rep_rand01 (g 3) * 101\<rfloor> - 50
      in ((fst (sizes ! k) + dw, snd (sizes ! k) + dh), (\<lambda>n. g (Suc (Suc (Suc (Suc n)))))))"
  by (simp add: pickSize_def presetIndex_def randomOffset_def draw_def Let_def split_def
      landscapeSizes_def portraitSizes_def numeral_2_eq_2 numeral_3_eq_3)

lemma draw_bounds: "0 \<le> Rep_rand01 r \<and> Rep_rand01 r < 1"
  using Rep_rand01 [of r] by simp

lemma index_bound: "nat \<lfloor>Rep_rand01 r * 4\<rfloor> < 4"
proof -
  have "Rep_rand01 r * 4 < real_of_int 4" using draw_bounds [of r] by simp
  then have "\<lfloor>Rep_rand01 r * 4\<rfloor> < 4" by (simp only: floor_less_iff)
  then show ?thesis by linarith
qed

lemma offset_bounds: "- 50 \<le> \<lfloor>Rep_rand01 r * 101\<rfloor> - 50 \<and> \<lfloor>Rep_rand01 r * 101\<rfloor> - 50 \<le> 50"
proof -
  have "Rep_rand01 r * 101 < real_of_int 101" using draw_bounds [of r] by simp
  then have "\<lfloor>Rep_rand01 r * 101\<rfloor> < 101" by (simp only: floor_less_iff)
  moreover have "0 \<le> \<lfloor>Rep_rand01 r * 101\<rfloor>" using draw_bounds [of r] by simp
  ultimately show ?thesis by linarith
qed

text \<open>
  Every preset with every pair of offsets is the result of some draws.
\<close>

lemma pickSize_reaches:
  assumes rs: "randomSize s"
    and mem: "(bw, bh) \<in> set landscapeSizes \<union> set portraitSizes"
    and dw: "- 50 \<le> dw" "dw \<le> 50" and dh: "- 50 \<le> dh" "dh \<le> 50"
  shows "\<exists>g. fst (pickSize s g) = (bw + dw, bh + dh)"
proof -
  obtain top k where top: "top = 1 \<or> top = 3" and k: "k < 4"
    and base: "(if real top / 4 > 0.5 then landscapeSizes else portraitSizes) ! k = (bw, bh)"
  proof (cases "(bw, bh) \<in> set landscapeSizes")
    case True
    then obtain k where "k < length landscapeSizes" "landscapeSizes ! k = (bw, bh)"
      by (auto simp: in_set_conv_nth)
    then have "k < 4" "(if real (3::nat) / 4 > 0.5 then landscapeSizes else portraitSizes) ! k = (bw, bh)"
      by (simp_all add: landscapeSizes_def)
    then show ?thesis using that [of 3 k] by simp
  next
    case False
    with mem obtain k where "k < length portraitSizes" "portraitSizes ! k = (bw, bh)"
      by (auto simp: in_set_conv_nth)
    then have "k < 4" "(if real (1::nat) / 4 > 0.5 then landscapeSizes else portraitSizes) ! k = (bw, bh)"
      by (simp_all add: portraitSizes_def)
    then show ?thesis using that [of 1 k] by simp
  qed
  define a where "a = nat (dw + 50)"
  define b where "b = nat (dh + 50)"
  have ab: "a \<le> 100" "b \<le> 100" "int a = dw + 50" "int b = dh + 50"
    using dw dh by (simp_all add: a_def b_def)
  define g :: rng where
    "g = (\<lambda>j. if j = 0 then ratio01 top 4 else if j = Suc 0 then ratio01 (2 * k + 1) (2 * 4)
               else if j = Suc (Suc 0) then ratio01 (2 * a + 1) (2 * 101)
               else ratio01 (2 * b + 1) (2 * 101))"
  have r0: "Rep_rand01 (g 0) = real top / 4"
    using top by (auto simp: g_def Rep_ratio01)
  have r1: "Rep_rand01 (g 1) * 4 = real (2 * k + 1) / real (2 * 4) * real 4"
    using k by (simp add: g_def Rep_ratio01)
  have r2: "Rep_rand01 (g 2) * 101 = real (2 * a + 1) / real (2 * 101) * real 101"
    using ab by (simp add: g_def Rep_ratio01)
  have r3: "Rep_rand01 (g 3) * 101 = real (2 * b + 1) / real (2 * 101) * real 101"
    using ab by (simp add: g_def Rep_ratio01)
  have f1: "nat \<lfloor>Rep_rand01 (g 1) * 4\<rfloor> = k"
    unfolding r1 using floor_odd_half [of 4 k] by simp
  have f2: "\<lfloor>Rep_rand01 (g 2) * 101\<rfloor> - 50 = dw"
    unfolding r2 using floor_odd_half [of 101 a] ab by simp
  have f3: "\<lfloor>Rep_rand01 (g 3) * 101\<rfloor> - 50 = dh"
    unfolding r3 using floor_odd_half [of 101 b] ab by simp
  have "fst (pickSize s g) = (bw + dw, bh + dh)"
    unfolding pickSize_random [OF rs] Let_def f1 f2 f3 r0 base by simp
  then show ?thesis by blast
qed

lemma jitter_values:
  "Rep_rand01 (jitter_draws 0) = 3 / 4" "Rep_rand01 (jitter_draws 1) = 3 / 8"
  "Rep_rand01 (jitter_draws 2) = 1 / 202" "Rep_rand01 (jitter_draws 3) = 201 / 202"
  "Rep_rand01 (jitter_draws (Suc 0)) = 3 / 8"
  by (simp_all add: jitter_draws_def Rep_ratio01)

section \<open>Theorems\<close>

text \<open>
  C1. Every item that a run of \<^verbatim>\<open>generateImages\<close> generates carries a metadata block
  exactly when the format is \<open>Jpg\<close> and the metadata toggle is on; in particular for
  \<open>Png\<close> the block is absent whatever the toggle. (A request that the budgeted
  variant rejects generates no item and leaves the list as it was.)
\<close>

theorem exif_only_for_jpg:
  assumes "v = Budgeted \<longrightarrow> \<not> isOverRamLimit s"
    and "img \<in> set (images (generateImages v e s))"
  shows "(exif img \<noteq> None \<longleftrightarrow> format s = Jpg \<and> withExif s)
         \<and> (format s = Png \<longrightarrow> exif img = None)"
proof -
  from assms(1) have "\<not> (v = Budgeted \<and> isOverRamLimit s)" by simp
  from run_images [OF this] obtain m where
    "images (generateImages v e s) = map (\<lambda>j. unitImage v e j s) [0..<m]" by blast
  with assms(2) obtain j where "img = unitImage v e j s" by auto
  then have "exif img \<noteq> None \<longleftrightarrow> format s = Jpg \<and> withExif s"
    using exif_unitImage [of v e j s] by auto
  then show ?thesis by auto
qed

text \<open>
  C1 at the sample state: with JPEG and the toggle on the first item has a block; with
  PNG and the toggle still on it has none.
\<close>

theorem exif_only_for_jpg_witness:
  "\<not> isOverRamLimit demo_state
   \<and> unitImage Budgeted demo_env 0 demo_state
        \<in> set (images (generateImages Budgeted demo_env demo_state))
   \<and> format demo_state = Jpg \<and> withExif demo_state
   \<and> exif (unitImage Budgeted demo_env 0 demo_state) \<noteq> None
   \<and> unitImage Plain demo_env 0 (demo_state\<lparr>format := Png\<rparr>)
        \<in> set (images (generateImages Plain demo_env (demo_state\<lparr>format := Png\<rparr>)))
   \<and> withExif (demo_state\<lparr>format := Png\<rparr>)
   \<and> exif (unitImage Plain demo_env 0 (demo_state\<lparr>format := Png\<rparr>)) = None"
proof -
  have b: "Budgeted = Budgeted \<longrightarrow> \<not> isOverRamLimit demo_state" using demo_not_over by simp
  have p: "Plain = Budgeted \<longrightarrow> \<not> isOverRamLimit (demo_state\<lparr>format := Png\<rparr>)" by simp
  have c: "[0..<nat (count demo_state)] = [0, 1, 2]" "count (demo_state\<lparr>format := Png\<rparr>) = count demo_state"
    by (simp_all add: demo_state_def upt_rec)
  have m1: "unitImage Budgeted demo_env 0 demo_state
            \<in> set (images (generateImages Budgeted demo_env demo_state))"
    using run_nocancel(1) [OF demo_quiet, of Budgeted demo_state] demo_not_over by (simp add: c)
  have m2: "unitImage Plain demo_env 0 (demo_state\<lparr>format := Png\<rparr>)
            \<in> set (images (generateImages Plain demo_env (demo_state\<lparr>format := Png\<rparr>)))"
    using run_nocancel(1) [OF demo_quiet, of Plain "demo_state\<lparr>format := Png\<rparr>"] by (simp add: c)
  have f: "format demo_state = Jpg" "withExif demo_state" "format (demo_state\<lparr>format := Png\<rparr>) = Png"
    "withExif (demo_state\<lparr>format := Png\<rparr>)"
    by (simp_all add: demo_state_def)
  from exif_only_for_jpg [OF b m1] f have "exif (unitImage Budgeted demo_env 0 demo_state) \<noteq> None"
    by simp
  moreover from exif_only_for_jpg [OF p m2] f
  have "exif (unitImage Plain demo_env 0 (demo_state\<lparr>format := Png\<rparr>)) = None"
    by simp
  ultimately show ?thesis using m1 m2 f demo_not_over by simp
qed

text \<open>
  C2. For every blob of length \<open>L\<close> and every target \<open>T\<close>, the inflator's output has
  length \<open>max L T\<close>; for \<open>T = 0\<close> it is the input itself; the output always starts
  with the original bytes, and whatever follows them is zero bytes only (and the media
  type is kept).
\<close>

theorem inflateBlob_spec:
  "blob_size (inflateBlob b T) = max (blob_size b) T
   \<and> inflateBlob b 0 = b
   \<and> take (length (bytes b)) (bytes (inflateBlob b T)) = bytes b
   \<and> bytes (inflateBlob b T)
       = bytes b @ replicate (nat (max (blob_size b) T - blob_size b)) 0
   \<and> mime (inflateBlob b T) = mime b"
  by (simp add: inflateBlob_def blob_size_def Let_def max_def)







text \<open>
  C5. The claim bounds the latitude by 90 and the longitude by 180 degrees. The script
  passes \<^verbatim>\<open>randInt(0, 90) + Math.random()\<close> and \<^verbatim>\<open>randInt(0, 180) + Math.random()\<close> to the
  encoder, and \<^verbatim>\<open>randInt\<close> includes its upper bound (lemma \<open>randomDegrees_range\<close>: the
  values lie in \<open>[0, 91)\<close> and \<open>[0, 181)\<close>). With the draws 0.995, 0.5, 0.995, 0.5 the
  block records 90.5 degrees North and 180.5 degrees East, whatever the encoder is.
\<close>

theorem gps_degrees_overshoot:
  "\<forall>enc. map (\<lambda>i. map_option (\<lambda>x. (GPSLatitudeRef x, GPSLatitude x, GPSLongitudeRef x, GPSLongitude x))
                      (exif i))
           (images (generateImages Plain (polar_env\<lparr>degToDmsRational := enc\<rparr>) (demo_state\<lparr>count := 1\<rparr>)))
         = [Some (''N'', enc (181 / 2), ''E'', enc (361 / 2))]"
proof
  fix enc
  let ?e = "polar_env\<lparr>degToDmsRational := enc\<rparr>"
  let ?s = "demo_state\<lparr>count := 1\<rparr>"
  have q: "\<forall>i. \<not> cancelDuring ?e i" by (simp add: polar_env_def demo_env_def)
  have a: "\<not> (Plain = Budgeted \<and> isOverRamLimit ?s)" by simp
  have imgs: "images (generateImages Plain ?e ?s) = [unitImage Plain ?e 0 ?s]"
    using run_nocancel(1) [OF q a] by simp
  have lat: "randomDegrees 90 (Math_random polar_env 0) = (181 / 2, \<lambda>n. Math_random polar_env 0 (Suc (Suc n)))"
    by (simp add: randomDegrees_def randInt_def draw_def polar_env_def near_one half half' split_def Let_def)
  have lon: "fst (randomDegrees 180 (\<lambda>n. Math_random polar_env 0 (Suc (Suc n)))) = 361 / 2"
    by (simp add: randomDegrees_def randInt_def draw_def polar_env_def near_one half half' split_def Let_def)
  have "exif (unitImage Plain ?e 0 ?s)
        = Some (fst (newExifObj ?e 0 (Math_random ?e 0)))"
    by (simp add: unitImage_def drawUnit_def pickSize_def fillStyle_def demo_state_def split_def Let_def)
  then show "map (\<lambda>i. map_option (\<lambda>x. (GPSLatitudeRef x, GPSLatitude x, GPSLongitudeRef x, GPSLongitude x))
                      (exif i))
           (images (generateImages Plain ?e ?s))
         = [Some (''N'', enc (181 / 2), ''E'', enc (361 / 2))]"
    by (simp add: imgs newExifObj_def lat lon split_def Let_def)
qed

text \<open>
  C6. In fixed mode with width 800 and height 600 the size picker returns \<open>(800, 600)\<close>
  (in fixed mode it returns the two refs and makes no draw). In random mode it makes
  four draws: the first chooses the list (landscape when above 0.5, portrait otherwise),
  the second the entry of that list, the third the offset of the width and the fourth
  the offset of the height. The index is always inside the list, each offset is an
  integer between -50 and 50, and the result is that entry plus the two offsets. The two
  offsets are independent: every preset with every pair of offsets in range is the
  result of some draws.
\<close>

theorem pickSize_spec:
  "fst (pickSize (s\<lparr>randomSize := False, width := 800, height := 600\<rparr>) g) = (800, 600)
   \<and> (\<not> randomSize s \<longrightarrow> pickSize s g = ((width s, height s), g))
   \<and> (randomSize s \<longrightarrow>
        (let sizes = (if Rep_rand01 (g 0) > 0.5 then landscapeSizes else portraitSizes);
             k = nat \<lfloor>Rep_rand01 (g 1) * 4\<rfloor>;
             dw = \<lfloor>Rep_rand01 (g 2) * 101\<rfloor> - 50;
             dh = \<lfloor>Rep_rand01 (g 3) * 101\<rfloor> - 50
         in k < length sizes
            \<and> - 50 \<le> dw \<and> dw \<le> 50 \<and> - 50 \<le> dh \<and> dh \<le> 50
            \<and> pickSize s g
                = ((fst (sizes ! k) + dw, snd (sizes ! k) + dh),
                   (\<lambda>n. g (Suc (Suc (Suc (Suc n))))))))
   \<and> (randomSize s \<longrightarrow>
        (\<forall>bw bh dw dh.
            (bw, bh) \<in> set landscapeSizes \<union> set portraitSizes
            \<and> - 50 \<le> dw \<and> dw \<le> 50 \<and> - 50 \<le> dh \<and> dh \<le> 50
            \<longrightarrow> (\<exists>g'. fst (pickSize s g') = (bw + dw, bh + dh))))"
proof (intro conjI impI allI)
  show "fst (pickSize (s\<lparr>randomSize := False, width := 800, height := 600\<rparr>) g) = (800, 600)"
    by (simp add: pickSize_def)
  show "pickSize s g = ((width s, height s), g)" if "\<not> randomSize s"
    using that by (simp add: pickSize_def)
  show "let sizes = (if Rep_rand01 (g 0) > 0.5 then landscapeSizes else portraitSizes);
             k = nat \<lfloor>Rep_rand01 (g 1) * 4\<rfloor>;
             dw = \<lfloor>Rep_rand01 (g 2) * 101\<rfloor> - 50;
             dh = \<lfloor>Rep_rand01 (g 3) * 101\<rfloor> - 50
         in k < length sizes
            \<and> - 50 \<le> dw \<and> dw \<le> 50 \<and> - 50 \<le> dh \<and> dh \<le> 50
            \<and> pickSize s g
                = ((fst (sizes ! k) + dw, snd (sizes ! k) + dh),
                   (\<lambda>n. g (Suc (Suc (Suc (Suc n))))))" if rs: "randomSize s"
    using pickSize_random [OF rs, of g] index_bound [of "g 1"] offset_bounds [of "g 2"]
      offset_bounds [of "g 3"]
    by (simp add: Let_def landscapeSizes_def portraitSizes_def)
  show "\<exists>g'. fst (pickSize s g') = (bw + dw, bh + dh)"
    if "randomSize s"
      and "(bw, bh) \<in> set landscapeSizes \<union> set portraitSizes
            \<and> - 50 \<le> dw \<and> dw \<le> 50 \<and> - 50 \<le> dh \<and> dh \<le> 50"
    for bw bh dw dh
    using that pickSize_reaches [of s bw bh dw dh] by blast
qed

text \<open>
  C6 at the sample state: fixed mode; random mode at the draws 0.75, 0.375, 1/202, 201/202,
  which give the preset 1280 x 720 with the offsets -50 and 50; and draws that give
  2160 x 3840 with the offsets 7 and -33.
\<close>

theorem pickSize_spec_witness:
  "\<not> randomSize demo_state
   \<and> pickSize demo_state jitter_draws = ((640, 480), jitter_draws)
   \<and> randomSize (demo_state\<lparr>randomSize := True\<rparr>)
   \<and> pickSize (demo_state\<lparr>randomSize := True\<rparr>) jitter_draws
       = ((1280 - 50, 720 + 50), (\<lambda>n. jitter_draws (Suc (Suc (Suc (Suc n))))))
   \<and> (\<exists>g'. fst (pickSize (demo_state\<lparr>randomSize := True\<rparr>) g') = (2160 + 7, 3840 - 33))"
proof -
  have f: "\<not> randomSize demo_state" "width demo_state = 640" "height demo_state = 480"
    by (simp_all add: demo_state_def)
  have r: "randomSize (demo_state\<lparr>randomSize := True\<rparr>)" by simp
  note fixed = pickSize_spec [of demo_state jitter_draws]
  note random = pickSize_spec [of "demo_state\<lparr>randomSize := True\<rparr>" jitter_draws]
  from fixed f have a: "pickSize demo_state jitter_draws = ((640, 480), jitter_draws)" by simp
  from random r
  have b: "pickSize (demo_state\<lparr>randomSize := True\<rparr>) jitter_draws
       = ((1280 - 50, 720 + 50), (\<lambda>n. jitter_draws (Suc (Suc (Suc (Suc n))))))"
    by (simp add: Let_def jitter_values landscapeSizes_def)
  have m: "(2160, 3840) \<in> set landscapeSizes \<union> set portraitSizes" by (simp add: portraitSizes_def)
  from random r
  have reach: "\<forall>bw bh dw dh.
            (bw, bh) \<in> set landscapeSizes \<union> set portraitSizes
            \<and> - 50 \<le> dw \<and> dw \<le> 50 \<and> - 50 \<le> dh \<and> dh \<le> 50
            \<longrightarrow> (\<exists>g'. fst (pickSize (demo_state\<lparr>randomSize := True\<rparr>) g') = (bw + dw, bh + dh))"
    by blast
  from reach [rule_format, of 2160 3840 7 "- 33"] m
  have c: "\<exists>g'. fst (pickSize (demo_state\<lparr>randomSize := True\<rparr>) g') = (2160 + 7, 3840 + (- 33))"
    by simp
  from f r a b c show ?thesis by simp
qed

text \<open>
  C7. Budgeted variant: when count times the estimated size per image exceeds 500 MB,
  \<^verbatim>\<open>generateImages\<close> returns the state it was given: the result list, the generating
  flag, the progress index and every other ref are unchanged.
\<close>

theorem over_limit_rejected:
  "count s * estimatedImageSize s > 500 * 1024 * 1024 \<Longrightarrow> generateImages Budgeted e s = s"
  by (simp add: generateImages_def isOverRamLimit_def totalEstimatedBytes_def MAX_RAM_BYTES_def)

text \<open>
  C7 at the sample state with count 2000.
\<close>

theorem over_limit_rejected_witness:
  "count (demo_state\<lparr>count := 2000\<rparr>) * estimatedImageSize (demo_state\<lparr>count := 2000\<rparr>)
     > 500 * 1024 * 1024
   \<and> generateImages Budgeted demo_env (demo_state\<lparr>count := 2000\<rparr>) = demo_state\<lparr>count := 2000\<rparr>"
proof -
  have "count (demo_state\<lparr>count := 2000\<rparr>) * estimatedImageSize (demo_state\<lparr>count := 2000\<rparr>)
     > 500 * 1024 * 1024"
    by (simp add: estimatedImageSize_def demo_state_def)
  then show ?thesis using over_limit_rejected [of "demo_state\<lparr>count := 2000\<rparr>" demo_env] by blast
qed

text \<open>
  C8. For every result list a session can hold, the entries that \<^verbatim>\<open>downloadZip\<close>
  puts into the archive are exactly the held items, one entry per item, each under the
  item's name with the item's blob; no two entries share a name.
\<close>

theorem archive_holds_every_item:
  "held (images s) \<Longrightarrow>
     downloadZip s = map (\<lambda>i. (name i, blob i)) (images s)
   \<and> length (downloadZip s) = length (images s)
   \<and> distinct (map fst (downloadZip s))"
proof -
  assume h: "held (images s)"
  from held_distinct_names [OF h] have d: "distinct (map name (images s))" .
  have "downloadZip s = [] @ map (\<lambda>i. (name i, blob i)) (images s)"
    unfolding downloadZip_def by (rule downloadZip_fold [OF d]) simp
  with d show ?thesis by (simp add: comp_def)
qed

text \<open>
  C8 after the sample run: three entries under the three generated names.
\<close>

theorem archive_holds_every_item_witness:
  "held (images (generateImages Budgeted demo_env demo_state))
   \<and> length (images (generateImages Budgeted demo_env demo_state)) = 3
   \<and> map fst (downloadZip (generateImages Budgeted demo_env demo_state))
       = [''image_1_1f0e3dad_640x480.jpg'', ''image_2_1f0e3dad_640x480.jpg'',
          ''image_3_1f0e3dad_640x480.jpg'']"
proof -
  have "held (images demo_state)" using held_initial by (simp add: demo_state_def)
  then have h: "held (images (generateImages Budgeted demo_env demo_state))" by (rule held_generate)
  have a: "\<not> (Budgeted = Budgeted \<and> isOverRamLimit demo_state)" using demo_not_over by simp
  have c: "[0..<nat (count demo_state)] = [0, 1, 2]" by (simp add: demo_state_def upt_rec)
  have imgs: "images (generateImages Budgeted demo_env demo_state)
              = map (\<lambda>i. unitImage Budgeted demo_env i demo_state) [0, 1, 2]"
    using run_nocancel(1) [OF demo_quiet a] by (simp add: c)
  from archive_holds_every_item [OF h]
  have "map fst (downloadZip (generateImages Budgeted demo_env demo_state))
        = map name (images (generateImages Budgeted demo_env demo_state))"
    by (simp add: comp_def)
  with h show ?thesis
    by (simp add: imgs demo_unit_name showNat.simps [of "Suc 0"] showNat.simps [of "Suc (Suc 0)"]
        showNat.simps [of "Suc (Suc (Suc 0))"] digit_def numeral_2_eq_2 numeral_3_eq_3)
qed

text \<open>
  C10. Budgeted variant: once the watcher has run, for each target size of the menu the
  count is at most the allowed maximum and the estimated total is at most the ceiling,
  so \<^verbatim>\<open>isOverRamLimit\<close> is false and \<^verbatim>\<open>generateImages\<close> does not take its rejecting
  branch; the watcher's own write does not trigger a further change.
\<close>

theorem watcher_keeps_budget:
  "targetSize s \<in> set targetSizeItems \<Longrightarrow>
     count (watch_count s) \<le> maxCountAllowed (watch_count s)
   \<and> totalEstimatedBytes (watch_count s) \<le> MAX_RAM_BYTES
   \<and> \<not> isOverRamLimit (watch_count s)
   \<and> watch_count (watch_count s) = watch_count s"
proof -
  assume menu: "targetSize s \<in> set targetSizeItems"
  define est where "est = estimatedImageSize s"
  define c where "c = count (watch_count s)"
  from menu_floor [OF menu] have q: "1 \<le> MAX_RAM_BYTES div est" and pos: "0 < est"
    by (simp_all add: est_def estimatedImageSize_def)
  have mx: "maxCountAllowed s = MAX_RAM_BYTES div est"
    using q by (simp add: maxCountAllowed_def est_def)
  have same: "estimatedImageSize (watch_count s) = est" "maxCountAllowed (watch_count s) = maxCountAllowed s"
    by (simp_all add: watch_count_def estimatedImageSize_def maxCountAllowed_def est_def)
  have cle: "c \<le> MAX_RAM_BYTES div est"
    using mx by (simp add: c_def watch_count_def)
  have "c * est \<le> (MAX_RAM_BYTES div est) * est"
    using cle pos by (simp add: mult_right_mono)
  also have "\<dots> \<le> MAX_RAM_BYTES"
  proof -
    have "MAX_RAM_BYTES div est * est + MAX_RAM_BYTES mod est = MAX_RAM_BYTES" by simp
    moreover have "0 \<le> MAX_RAM_BYTES mod est" using pos by simp
    ultimately show ?thesis by linarith
  qed
  finally have tot: "totalEstimatedBytes (watch_count s) \<le> MAX_RAM_BYTES"
    by (simp add: totalEstimatedBytes_def same c_def)
  have idem: "watch_count (watch_count s) = watch_count s"
    using cle mx same by (simp add: watch_count_def [of "watch_count s"] c_def)
  from cle mx same tot idem show ?thesis
    by (simp add: isOverRamLimit_def c_def)
qed

text \<open>
  C10 at count 5000 with the 10 MB target: the watcher lowers the count to 50.
\<close>

theorem watcher_keeps_budget_witness:
  "targetSize (demo_state\<lparr>count := 5000, targetSize := 10485760\<rparr>) \<in> set targetSizeItems
   \<and> isOverRamLimit (demo_state\<lparr>count := 5000, targetSize := 10485760\<rparr>)
   \<and> count (watch_count (demo_state\<lparr>count := 5000, targetSize := 10485760\<rparr>)) = 50
   \<and> \<not> isOverRamLimit (watch_count (demo_state\<lparr>count := 5000, targetSize := 10485760\<rparr>))"
proof -
  let ?s = "demo_state\<lparr>count := 5000, targetSize := 10485760\<rparr>"
  have m: "targetSize ?s \<in> set targetSizeItems" by (simp add: targetSizeItems_def)
  have o: "isOverRamLimit ?s"
    by (simp add: isOverRamLimit_def totalEstimatedBytes_def estimatedImageSize_def MAX_RAM_BYTES_def)
  have c: "count (watch_count ?s) = 50"
    by (simp add: watch_count_def maxCountAllowed_def estimatedImageSize_def MAX_RAM_BYTES_def)
  from watcher_keeps_budget [OF m] m o c show ?thesis by blast
qed

end
